theory Spec2Isabelle
  imports Complex_Main
begin

section \<open>JavaScript numbers\<close>

text \<open>
  The constructor's arguments and the stored expiration timestamps have the TypeScript
  type \<open>number\<close>, an IEEE 754 double. Besides the finite values it holds the two
  infinities and NaN, and the constructor's check is decided differently on them, so
  they are part of the model. A finite double is a rational, so finite values are
  rationals; comparisons and \<open>Math.floor\<close> are exact on them, and a sum is rounded to
  a double as the machine rounds it. The two zeros are not told apart.
\<close>

datatype number = Fin rat | PosInf | NegInf | NaN

text \<open>\<open>Math.floor\<close>: the infinities and NaN are returned as they are.\<close>

fun Math_floor :: "number \<Rightarrow> number" where
  "Math_floor (Fin r) = Fin (of_int \<lfloor>r\<rfloor>)"
| "Math_floor PosInf = PosInf"
| "Math_floor NegInf = NegInf"
| "Math_floor NaN = NaN"

text \<open>The operator \<open>>=\<close>: false as soon as one side is NaN.\<close>

fun num_ge :: "number \<Rightarrow> number \<Rightarrow> bool" where
  "num_ge NaN _ = False"
| "num_ge _ NaN = False"
| "num_ge (Fin a) (Fin b) = (b \<le> a)"
| "num_ge PosInf _ = True"
| "num_ge _ NegInf = True"
| "num_ge _ _ = False"

text \<open>The operator \<open>>\<close>.\<close>

fun num_gt :: "number \<Rightarrow> number \<Rightarrow> bool" where
  "num_gt NaN _ = False"
| "num_gt _ NaN = False"
| "num_gt (Fin a) (Fin b) = (b < a)"
| "num_gt PosInf PosInf = False"
| "num_gt PosInf _ = True"
| "num_gt NegInf _ = False"
| "num_gt (Fin a) NegInf = True"
| "num_gt (Fin a) PosInf = False"

text \<open>The operator \<open>===\<close> on numbers: NaN is equal to nothing, itself included.\<close>

fun strict_eq :: "number \<Rightarrow> number \<Rightarrow> bool" where
  "strict_eq NaN _ = False"
| "strict_eq _ NaN = False"
| "strict_eq a b = (a = b)"

text \<open>
  Rounding to a double. For a positive rational \<open>a\<close> with \<open>2 ^ k \<le> a < 2 ^ (k + 1)\<close> the
  doubles around \<open>a\<close> are the multiples of \<open>2 ^ (k - 52)\<close>, but of nothing finer than
  \<open>2 ^ - 1074\<close>; \<open>a\<close> goes to the nearest multiple, and to the even one of two that are
  equally near. A result of \<open>2 ^ 1024\<close> or more is an infinity.
\<close>

fun ilog2 :: "nat \<Rightarrow> nat" where
  "ilog2 n = (if n < 2 then 0 else Suc (ilog2 (n div 2)))"

declare ilog2.simps [simp del]

text \<open>The \<open>k\<close> above: the floor of the binary logarithm of a positive rational.\<close>

definition floor_log2 :: "rat \<Rightarrow> int" where
  "floor_log2 a =
     (if 1 \<le> a then int (ilog2 (nat \<lfloor>a\<rfloor>))
      else - int (Suc (ilog2 (nat (\<lceil>1 / a\<rceil> - 1)))))"

definition pow2 :: "int \<Rightarrow> rat" where
  "pow2 e = (if 0 \<le> e then 2 ^ nat e else 1 / 2 ^ nat (- e))"

definition round_half_even :: "rat \<Rightarrow> int" where
  "round_half_even q =
     (let f = \<lfloor>q\<rfloor>; d = q - of_int f
      in if d < 1 / 2 then f
         else if 1 / 2 < d then f + 1
         else if even f then f else f + 1)"

definition round_double :: "rat \<Rightarrow> number" where
  "round_double r =
     (if r = 0 then Fin 0
      else
        let a = \<bar>r\<bar>;
            e = max (floor_log2 a - 52) (- 1074);
            m = round_half_even (a / pow2 e);
            d = of_int m * pow2 e
        in if 2 ^ 1024 \<le> d then (if 0 < r then PosInf else NegInf)
           else Fin (sgn r * d))"

text \<open>The operator \<open>+\<close> on numbers: the sum of two finite numbers is rounded.\<close>

fun num_add :: "number \<Rightarrow> number \<Rightarrow> number" where
  "num_add NaN _ = NaN"
| "num_add _ NaN = NaN"
| "num_add (Fin a) (Fin b) = round_double (a + b)"
| "num_add PosInf NegInf = NaN"
| "num_add NegInf PosInf = NaN"
| "num_add PosInf _ = PosInf"
| "num_add _ PosInf = PosInf"
| "num_add NegInf _ = NegInf"
| "num_add _ NegInf = NegInf"

text \<open>
  \<^verbatim>\<open>
  function isNaturalNumber(num: number): boolean {
    const floored = Math.floor(num);
    return floored >= 1 && floored === num;
  }
  \<close>
\<close>

definition isNaturalNumber :: "number \<Rightarrow> bool" where
  "isNaturalNumber num =
     (let floored = Math_floor num
      in num_ge floored (Fin 1) \<and> strict_eq floored num)"

section \<open>The insertion-ordered \<open>Map\<close>\<close>

text \<open>
  A JavaScript \<open>Map\<close> holds at most one entry per key and iterates in insertion order.
  It is a list of pairs, oldest entry first. \<open>Map.set\<close> on a stored key replaces the
  value in place; on a new key it appends.
\<close>

type_synonym ('k, 'e) js_map = "('k \<times> 'e) list"

fun Map_get :: "('k, 'e) js_map \<Rightarrow> 'k \<Rightarrow> 'e option" where
  "Map_get [] key = None"
| "Map_get ((k, e) # m) key = (if k = key then Some e else Map_get m key)"

definition Map_has :: "('k, 'e) js_map \<Rightarrow> 'k \<Rightarrow> bool" where
  "Map_has m key = (Map_get m key \<noteq> None)"

fun Map_set :: "('k, 'e) js_map \<Rightarrow> 'k \<Rightarrow> 'e \<Rightarrow> ('k, 'e) js_map" where
  "Map_set [] key e = [(key, e)]"
| "Map_set ((k, e') # m) key e =
     (if k = key then (k, e) # m else (k, e') # Map_set m key e)"

text \<open>\<open>Map.delete\<close> returns whether the key was stored, and the map without it.\<close>

definition Map_delete :: "('k, 'e) js_map \<Rightarrow> 'k \<Rightarrow> bool \<times> ('k, 'e) js_map" where
  "Map_delete m key = (Map_has m key, filter (\<lambda>p. fst p \<noteq> key) m)"

text \<open>\<open>keys().next().value\<close>: the oldest key, \<open>undefined\<close> on an empty map.\<close>

fun Map_first_key :: "('k, 'e) js_map \<Rightarrow> 'k option" where
  "Map_first_key [] = None"
| "Map_first_key ((k, e) # m) = Some k"

section \<open>The cache\<close>

record 'v ValueHolder =
  val :: 'v
  expirationTimestamp :: number

record ('k, 'v) FIFOCache =
  capacity :: number
  ttlMs :: number
  cache :: "('k, 'v ValueHolder) js_map"

text \<open>The two errors the constructor throws, each with the rejected argument.\<close>

datatype error = CapacityNotNatural number | TtlNotNatural number

definition constructor :: "number \<Rightarrow> number \<Rightarrow> error + ('k, 'v) FIFOCache" where
  "constructor cap ttl =
     (if \<not> isNaturalNumber cap then Inl (CapacityNotNatural cap)
      else if \<not> isNaturalNumber ttl then Inl (TtlNotNatural ttl)
      else Inr \<lparr>capacity = cap, ttlMs = ttl, cache = []\<rparr>)"

definition size_c :: "('k, 'v) FIFOCache \<Rightarrow> nat" where
  "size_c c = length (cache c)"

definition isEmpty :: "('k, 'v) FIFOCache \<Rightarrow> bool" where
  "isEmpty c = (length (cache c) = 0)"

text \<open>
  Every operation that reads the clock takes the reading \<open>now\<close> of \<open>Date.now()\<close>, an
  integer number of milliseconds, as its first argument.
  \<^verbatim>\<open>
  public set(key: K, value: V): void {
    const expirationTimestamp = Date.now() + this._ttlMs;
    this._cache.delete(key);
    this._cache.set(key, { value, expirationTimestamp });
    if (this._cache.size > this._capacity) {
      const oldestKey = this._cache.keys().next().value;
      this._cache.delete(oldestKey);
    }
  }
  \<close>
\<close>

definition set_c :: "int \<Rightarrow> 'k \<Rightarrow> 'v \<Rightarrow> ('k, 'v) FIFOCache \<Rightarrow> ('k, 'v) FIFOCache" where
  "set_c now key v c =
     (let expiration = num_add (Fin (of_int now)) (ttlMs c);
          m1 = snd (Map_delete (cache c) key);
          m2 = Map_set m1 key \<lparr>val = v, expirationTimestamp = expiration\<rparr>
      in if num_gt (Fin (of_nat (length m2))) (capacity c)
         then (case Map_first_key m2 of
                 None \<Rightarrow> c\<lparr>cache := m2\<rparr>
               | Some oldestKey \<Rightarrow> c\<lparr>cache := snd (Map_delete m2 oldestKey)\<rparr>)
         else c\<lparr>cache := m2\<rparr>)"

text \<open>
  \<^verbatim>\<open>
  public get(key: K): V | undefined {
    const valueHolder =  this._cache.get(key);
    if (!valueHolder) { return undefined; }
    const { value, expirationTimestamp } = valueHolder;
    const isOutdated = Date.now() >= expirationTimestamp;
    if (isOutdated) { this._cache.delete(key); return undefined; }
    return value;
  }
  \<close>
  The result is the returned value (\<open>None\<close> for \<open>undefined\<close>) and the cache afterwards.
  A stored holder is an object and so never falsy. The type \<open>'v\<close> stands for the values
  other than \<open>undefined\<close>, which a caller could not tell from an absent key.
\<close>

definition get :: "int \<Rightarrow> 'k \<Rightarrow> ('k, 'v) FIFOCache \<Rightarrow> 'v option \<times> ('k, 'v) FIFOCache" where
  "get now key c =
     (case Map_get (cache c) key of
        None \<Rightarrow> (None, c)
      | Some valueHolder \<Rightarrow>
          (let isOutdated = num_ge (Fin (of_int now)) (expirationTimestamp valueHolder)
           in if isOutdated then (None, c\<lparr>cache := snd (Map_delete (cache c) key)\<rparr>)
              else (Some (val valueHolder), c)))"

text \<open>
  The compiled module \<open>dist/fifo-ttl-cache.js\<close> is one version ahead: there \<open>get\<close> and
  the new \<open>has\<close> share the private \<open>_getExpiringEntry\<close>.
  \<^verbatim>\<open>
  _getExpiringEntry(key) {
    const entry = this._cache.get(key);
    if (!entry) { return undefined; }
    const { expirationTimestamp } = entry;
    const isOutdated = Date.now() >= expirationTimestamp;
    if (isOutdated) { this._cache.delete(key); return undefined; }
    return entry;
  }
  get(key) { return this._getExpiringEntry(key)?.value; }
  has(key) { return !!this._getExpiringEntry(key); }
  \<close>
\<close>

definition getExpiringEntry ::
  "int \<Rightarrow> 'k \<Rightarrow> ('k, 'v) FIFOCache \<Rightarrow> 'v ValueHolder option \<times> ('k, 'v) FIFOCache" where
  "getExpiringEntry now key c =
     (case Map_get (cache c) key of
        None \<Rightarrow> (None, c)
      | Some entry \<Rightarrow>
          (let isOutdated = num_ge (Fin (of_int now)) (expirationTimestamp entry)
           in if isOutdated then (None, c\<lparr>cache := snd (Map_delete (cache c) key)\<rparr>)
              else (Some entry, c)))"

definition get_dist :: "int \<Rightarrow> 'k \<Rightarrow> ('k, 'v) FIFOCache \<Rightarrow> 'v option \<times> ('k, 'v) FIFOCache" where
  "get_dist now key c =
     (case getExpiringEntry now key c of
        (None, c') \<Rightarrow> (None, c')
      | (Some entry, c') \<Rightarrow> (Some (val entry), c'))"

definition has :: "int \<Rightarrow> 'k \<Rightarrow> ('k, 'v) FIFOCache \<Rightarrow> bool \<times> ('k, 'v) FIFOCache" where
  "has now key c =
     (case getExpiringEntry now key c of
        (None, c') \<Rightarrow> (False, c')
      | (Some entry, c') \<Rightarrow> (True, c'))"

text \<open>
  \<^verbatim>\<open>
  public delete(key: K): boolean { return this._cache.delete(key); }
  public clear(): void { this._cache.clear(); }
  \<close>
\<close>

definition delete :: "'k \<Rightarrow> ('k, 'v) FIFOCache \<Rightarrow> bool \<times> ('k, 'v) FIFOCache" where
  "delete key c =
     (let (existed, m) = Map_delete (cache c) key in (existed, c\<lparr>cache := m\<rparr>))"

definition clear :: "('k, 'v) FIFOCache \<Rightarrow> ('k, 'v) FIFOCache" where
  "clear c = c\<lparr>cache := []\<rparr>"

section \<open>Sequences of operations\<close>

datatype ('k, 'v) op = Set 'k 'v | Get 'k | Has 'k | Delete 'k | Clear

text \<open>One call at clock reading \<open>now\<close>; only the cache afterwards is kept.\<close>

fun step :: "int \<times> ('k, 'v) op \<Rightarrow> ('k, 'v) FIFOCache \<Rightarrow> ('k, 'v) FIFOCache" where
  "step (now, Set k v) c = set_c now k v c"
| "step (now, Get k) c = snd (get now k c)"
| "step (now, Has k) c = snd (has now k c)"
| "step (now, Delete k) c = snd (delete k c)"
| "step (now, Clear) c = clear c"

definition run :: "(int \<times> ('k, 'v) op) list \<Rightarrow> ('k, 'v) FIFOCache \<Rightarrow> ('k, 'v) FIFOCache" where
  "run ops c = fold step ops c"

section \<open>Notions used in the statements\<close>

text \<open>
  A \<open>set\<close> call given as clock reading, key and value, and the entry that call stores on
  a cache whose TTL is \<open>ttl\<close>: its expiration timestamp is the sum the call computes.
\<close>

fun set_call :: "int \<times> 'k \<times> 'v \<Rightarrow> int \<times> ('k, 'v) op" where
  "set_call (now, k, v) = (now, Set k v)"

fun key_of :: "int \<times> 'k \<times> 'v \<Rightarrow> 'k" where
  "key_of (now, k, v) = k"

fun entry_of :: "number \<Rightarrow> int \<times> 'k \<times> 'v \<Rightarrow> 'k \<times> 'v ValueHolder" where
  "entry_of ttl (now, k, v) =
     (k, \<lparr>val = v, expirationTimestamp = num_add (Fin (of_int now)) ttl\<rparr>)"

text \<open>
  The key a \<open>set\<close> call evicts, if it evicts one: the oldest key after the insertion,
  when the size then exceeds the capacity. It follows the body of \<open>set\<close>.
\<close>

definition evicted_key :: "int \<Rightarrow> 'k \<Rightarrow> 'v \<Rightarrow> ('k, 'v) FIFOCache \<Rightarrow> 'k option" where
  "evicted_key now key v c =
     (let expiration = num_add (Fin (of_int now)) (ttlMs c);
          m1 = snd (Map_delete (cache c) key);
          m2 = Map_set m1 key \<lparr>val = v, expirationTimestamp = expiration\<rparr>
      in if num_gt (Fin (of_nat (length m2))) (capacity c)
         then Map_first_key m2 else None)"

text \<open>
  A call that neither deletes, nor overwrites, nor evicts the key: a \<open>set\<close> of another
  key that evicts another key or none, a \<open>delete\<close> of another key, any \<open>get\<close> or \<open>has\<close>;
  never a \<open>clear\<close>. A sequence of calls leaves the key alone if each call does, on the
  cache it is made on.
\<close>

fun keeps :: "'k \<Rightarrow> int \<times> ('k, 'v) op \<Rightarrow> ('k, 'v) FIFOCache \<Rightarrow> bool" where
  "keeps key (now, Set k v) c = (k \<noteq> key \<and> evicted_key now k v c \<noteq> Some key)"
| "keeps key (now, Get k) c = True"
| "keeps key (now, Has k) c = True"
| "keeps key (now, Delete k) c = (k \<noteq> key)"
| "keeps key (now, Clear) c = False"

fun kept :: "'k \<Rightarrow> (int \<times> ('k, 'v) op) list \<Rightarrow> ('k, 'v) FIFOCache \<Rightarrow> bool" where
  "kept key [] c = True"
| "kept key (x # xs) c = (keeps key x c \<and> kept key xs (step x c))"

text \<open>
  What \<open>set\<close> stores before it looks at the capacity: the entry of the key is taken
  out and the new one is the youngest.
\<close>

definition inserted :: "int \<Rightarrow> 'k \<Rightarrow> 'v \<Rightarrow> ('k, 'v) FIFOCache \<Rightarrow> ('k, 'v ValueHolder) js_map" where
  "inserted now key v c =
     filter (\<lambda>p. fst p \<noteq> key) (cache c) @
     [(key, \<lparr>val = v, expirationTimestamp = num_add (Fin (of_int now)) (ttlMs c)\<rparr>)]"

text \<open>
  A cache built with the natural number \<open>N\<close> as capacity keeps its configuration, one
  entry per key and at most \<open>N\<close> entries.
\<close>

definition inv_c :: "nat \<Rightarrow> number \<Rightarrow> ('k, 'v) FIFOCache \<Rightarrow> bool" where
  "inv_c N ttl c \<longleftrightarrow>
     1 \<le> N \<and> capacity c = Fin (of_nat N) \<and> ttlMs c = ttl \<and>
     distinct (map fst (cache c)) \<and> length (cache c) \<le> N"

section \<open>Rounding: sums of integers up to \<open>2 ^ 53\<close> are exact\<close>

lemma ilog2_bounds: "0 < n \<Longrightarrow> 2 ^ ilog2 n \<le> n \<and> n < 2 ^ Suc (ilog2 n)"
proof (induction n rule: ilog2.induct)
  case (1 n)
  show ?case
  proof (cases "n < 2")
    case True
    with "1.prems" have "n = 1" by simp
    then show ?thesis by (simp add: ilog2.simps)
  next
    case False
    then have "0 < n div 2" by simp
    with "1.IH" False have ih: "2 ^ ilog2 (n div 2) \<le> n div 2 \<and> n div 2 < 2 ^ Suc (ilog2 (n div 2))"
      by simp
    have eq: "ilog2 n = Suc (ilog2 (n div 2))" using False by (subst ilog2.simps) simp
    from ih show ?thesis unfolding eq by auto
  qed
qed

lemma ilog2_bounds_int:
  assumes "1 \<le> z"
  shows "(2::int) ^ ilog2 (nat z) \<le> z \<and> z < 2 ^ Suc (ilog2 (nat z))"
proof -
  define m where "m = nat z"
  have z: "z = int m" and pos: "0 < m" using assms by (simp_all add: m_def)
  have nm: "nat z = m" by (simp add: m_def)
  note b = ilog2_bounds [OF pos]
  from b have "int (2 ^ ilog2 m) \<le> int m" by (simp only: of_nat_le_iff)
  moreover from b have "int m < int (2 ^ Suc (ilog2 m))" by (simp only: of_nat_less_iff)
  ultimately show ?thesis unfolding nm z by simp
qed

text \<open>The exponent is the one the rounding needs: \<open>2 ^ k \<le> a < 2 ^ (k + 1)\<close>.\<close>

lemma floor_log2_bounds:
  assumes "0 < a"
  shows "pow2 (floor_log2 a) \<le> a \<and> a < pow2 (floor_log2 a + 1)"
proof (cases "1 \<le> a")
  case True
  let ?k = "ilog2 (nat \<lfloor>a\<rfloor>)"
  from True have "1 \<le> \<lfloor>a\<rfloor>" by simp
  note b = ilog2_bounds_int [OF this]
  from b have lo: "(2::rat) ^ ?k \<le> a" by (simp add: le_floor_iff)
  from b have hi: "a < (2::rat) ^ Suc ?k" by (simp add: floor_less_iff)
  have e: "floor_log2 a = int ?k" using True by (simp add: floor_log2_def)
  have p1: "pow2 (int ?k) = 2 ^ ?k" by (simp add: pow2_def)
  have p2: "pow2 (int ?k + 1) = 2 ^ Suc ?k" by (simp add: pow2_def nat_add_distrib)
  from lo hi show ?thesis unfolding e p1 p2 by simp
next
  case False
  let ?c = "\<lceil>1 / a\<rceil>"
  let ?k = "ilog2 (nat (?c - 1))"
  from False assms have "1 < 1 / a" by simp
  then have "2 \<le> ?c" by (simp add: le_ceiling_iff)
  then have "1 \<le> ?c - 1" by simp
  note b = ilog2_bounds_int [OF this]
  from b have "(2::int) ^ ?k < ?c" by simp
  then have "(2::rat) ^ ?k < 1 / a" by (simp add: less_ceiling_iff)
  with assms have hi: "a < 1 / 2 ^ ?k" by (simp add: field_simps)
  from b have "?c \<le> (2::int) ^ Suc ?k" by simp
  then have "1 / a \<le> (2::rat) ^ Suc ?k" by (simp add: ceiling_le_iff)
  with assms have lo: "1 / 2 ^ Suc ?k \<le> a" by (simp add: field_simps)
  have e: "floor_log2 a = - int (Suc ?k)" using False by (simp add: floor_log2_def)
  have "nat (int ?k + 1) = Suc ?k" by simp
  then have p1: "pow2 (- int (Suc ?k)) = 1 / 2 ^ Suc ?k"
    by (simp add: pow2_def)
  have p2: "pow2 (- int (Suc ?k) + 1) = 1 / 2 ^ ?k"
    by (simp add: pow2_def)
  from lo hi show ?thesis unfolding e p1 p2 by simp
qed

lemma round_half_even_of_int: "round_half_even (of_int z) = z"
  by (simp add: round_half_even_def)

lemma round_double_nat:
  assumes "0 < n" and "n \<le> 2 ^ 53"
  shows "round_double (of_nat n) = Fin (of_nat n)" and "round_double (- of_nat n) = Fin (- of_nat n)"
proof -
  let ?k = "ilog2 n"
  have b: "2 ^ ?k \<le> n" "n < 2 ^ Suc ?k" using ilog2_bounds [OF assms(1)] by simp_all
  have fl: "floor_log2 (of_nat n) = int ?k"
    using assms(1) by (simp add: floor_log2_def)
  have "(2::nat) ^ ?k \<le> 2 ^ 53" using b(1) assms(2) by (rule le_trans)
  then have k53: "?k \<le> 53" by (rule power_le_imp_le_exp [rotated]) simp
  have e: "max (int ?k - 52) (- 1074) = int ?k - 52" by simp
  have exact: "of_int (round_half_even (of_nat n / pow2 (int ?k - 52))) * pow2 (int ?k - 52) = (of_nat n :: rat)"
  proof (cases "?k \<le> 52")
    case True
    then have p: "pow2 (int ?k - 52) = 1 / 2 ^ (52 - ?k)"
      by (auto simp: pow2_def nat_diff_distrib)
    have q: "(of_nat n :: rat) / pow2 (int ?k - 52) = of_int (int (n * 2 ^ (52 - ?k)))"
      by (simp add: p)
    have "of_int (round_half_even (of_nat n / pow2 (int ?k - 52))) * pow2 (int ?k - 52) =
          of_int (int (n * 2 ^ (52 - ?k))) * pow2 (int ?k - 52)"
      by (simp only: q round_half_even_of_int)
    also have "\<dots> = of_nat n" by (simp add: p)
    finally show ?thesis .
  next
    case False
    with k53 have k: "?k = 53" by simp
    with b(1) assms(2) have n: "n = 2 ^ 53" by simp
    have p: "pow2 (int ?k - 52) = 2" by (simp add: k pow2_def)
    have q: "(of_nat n :: rat) / 2 = of_int (2 ^ 52)" by (simp add: n)
    have "of_int (round_half_even (of_nat n / pow2 (int ?k - 52))) * pow2 (int ?k - 52) =
          of_int (2 ^ 52) * 2"
      by (simp only: p q round_half_even_of_int)
    also have "\<dots> = of_nat n" by (simp add: n)
    finally show ?thesis .
  qed
  have small: "\<not> (2::rat) ^ 1024 \<le> of_nat n"
  proof -
    have "(of_nat n :: rat) \<le> 2 ^ 53" using assms(2) by (metis of_nat_le_iff of_nat_numeral of_nat_power)
    moreover have "(2::rat) ^ 53 < 2 ^ 1024" by simp
    ultimately show ?thesis by simp
  qed
  have nz: "(of_nat n :: rat) \<noteq> 0" using assms(1) by simp
  show "round_double (of_nat n) = Fin (of_nat n)"
    using assms(1) small by (simp add: round_double_def Let_def fl e exact)
  show "round_double (- of_nat n) = Fin (- of_nat n)"
    using assms(1) small by (simp add: round_double_def Let_def fl e exact)
qed

lemma round_double_of_int:
  assumes "\<bar>n\<bar> \<le> 2 ^ 53"
  shows "round_double (of_int n) = Fin (of_int n)"
proof (cases "n = 0")
  case True
  then show ?thesis by (simp add: round_double_def)
next
  case False
  let ?m = "nat \<bar>n\<bar>"
  have pos: "0 < ?m" using False by simp
  have le: "?m \<le> 2 ^ 53" using assms by (simp add: nat_le_iff)
  show ?thesis
  proof (cases "0 < n")
    case True
    then have "(of_int n :: rat) = of_nat ?m" by simp
    then show ?thesis using round_double_nat(1) [OF pos le] by simp
  next
    case neg: False
    with False have "(of_int n :: rat) = - of_nat ?m" by simp
    then show ?thesis using round_double_nat(2) [OF pos le] by simp
  qed
qed

lemma round_double_Ints: "r \<in> \<int> \<Longrightarrow> \<bar>r\<bar> \<le> 2 ^ 53 \<Longrightarrow> round_double r = Fin r"
proof -
  assume "r \<in> \<int>" and b: "\<bar>r\<bar> \<le> 2 ^ 53"
  then obtain n where r: "r = of_int n" by (auto elim: Ints_cases)
  with b have "\<bar>of_int n :: rat\<bar> \<le> of_int (2 ^ 53)" by simp
  then have "\<bar>n\<bar> \<le> 2 ^ 53" unfolding of_int_abs [symmetric] of_int_le_iff .
  then show ?thesis unfolding r by (rule round_double_of_int)
qed

text \<open>
  Beyond \<open>2 ^ 53\<close> a sum is not always the integer sum: the clock reading 1762000000000
  and a TTL of \<open>2 ^ 53 - 1\<close> give a timestamp that is one more than their sum.
\<close>

lemma round_double_beyond:
  "round_double (1 + 9007199254740992) = Fin 9007199254740992"
  "round_double (1762000000000 + 9007199254740991) = Fin 9008961254740992"
proof -
  have f: "floor_log2 9007199254740993 = 53" "floor_log2 9008961254740991 = 53"
    by (simp_all add: floor_log2_def ilog2.simps)
  have fl: "\<lfloor>9007199254740993 / 2 :: rat\<rfloor> = 4503599627370496"
    "\<lfloor>9008961254740991 / 2 :: rat\<rfloor> = 4504480627370495"
    by (simp_all add: floor_eq_iff)
  have r: "round_half_even (9007199254740993 / 2) = 4503599627370496"
    "round_half_even (9008961254740991 / 2) = 4504480627370496"
    by (simp_all add: round_half_even_def Let_def fl)
  show "round_double (1 + 9007199254740992) = Fin 9007199254740992"
    by (simp add: round_double_def f pow2_def r Let_def)
  show "round_double (1762000000000 + 9007199254740991) = Fin 9008961254740992"
    by (simp add: round_double_def f pow2_def r Let_def)
qed

lemma num_add_of_int:
  "\<bar>a + b\<bar> \<le> 2 ^ 53 \<Longrightarrow> num_add (Fin (of_int a)) (Fin (of_int b)) = Fin (of_int (a + b))"
  using round_double_of_int [of "a + b"] by simp

section \<open>The constructor's check\<close>

lemma isNaturalNumber_Fin:
  "isNaturalNumber (Fin r) \<longleftrightarrow> 1 \<le> r \<and> r = of_int \<lfloor>r\<rfloor>"
  by (auto simp: isNaturalNumber_def Let_def le_floor_iff)

lemma isNaturalNumber_of_nat: "isNaturalNumber (Fin (of_nat n)) \<longleftrightarrow> 1 \<le> n"
  by (simp add: isNaturalNumber_Fin)

lemma isNaturalNumber_of_int: "isNaturalNumber (Fin (of_int n)) \<longleftrightarrow> 1 \<le> n"
  by (simp add: isNaturalNumber_Fin)

lemma isNaturalNumber_special:
  "isNaturalNumber PosInf" "\<not> isNaturalNumber NegInf" "\<not> isNaturalNumber NaN"
  by (simp_all add: isNaturalNumber_def)

section \<open>Facts about the map operations\<close>

lemma Map_get_None_iff: "Map_get m key = None \<longleftrightarrow> key \<notin> fst ` set m"
proof (induction m)
  case Nil
  show ?case by simp
next
  case (Cons p m)
  then show ?case by (cases p) (simp add: image_iff)
qed

lemma Map_has_iff: "Map_has m key \<longleftrightarrow> key \<in> fst ` set m"
  by (simp add: Map_has_def Map_get_None_iff)

lemma Map_set_fresh: "key \<notin> fst ` set m \<Longrightarrow> Map_set m key e = m @ [(key, e)]"
  by (induction m) auto

lemma Map_get_append:
  "Map_get (m @ m') key = (case Map_get m key of None \<Rightarrow> Map_get m' key | Some e \<Rightarrow> Some e)"
  by (induction m) auto

lemma Map_get_filter_other:
  "key' \<noteq> key \<Longrightarrow> Map_get (filter (\<lambda>p. fst p \<noteq> key) m) key' = Map_get m key'"
  by (induction m) auto

lemma Map_get_filter_same: "Map_get (filter (\<lambda>p. fst p \<noteq> key) m) key = None"
  by (induction m) auto

lemma Map_get_Some_mem: "Map_get m key = Some e \<Longrightarrow> (key, e) \<in> set m"
  by (induction m) (force split: if_splits)+

lemma filter_absent: "key \<notin> fst ` set m \<Longrightarrow> filter (\<lambda>p. fst p \<noteq> key) m = m"
  by (induction m) auto

lemma length_filter_present:
  "distinct (map fst m) \<Longrightarrow> key \<in> fst ` set m \<Longrightarrow>
   Suc (length (filter (\<lambda>p. fst p \<noteq> key) m)) = length m"
proof (induction m)
  case Nil
  then show ?case by simp
next
  case (Cons p m)
  show ?case
  proof (cases "fst p = key")
    case True
    with Cons.prems have "key \<notin> fst ` set m" by auto
    with True show ?thesis by (simp add: filter_absent)
  next
    case False
    with Cons show ?thesis by auto
  qed
qed

lemma distinct_filter_keys:
  "distinct (map fst m) \<Longrightarrow> distinct (map fst (filter (\<lambda>p. fst p \<noteq> key) m))"
  by (simp add: distinct_map_filter)

lemma filter_first_key:
  "distinct (map fst (p # m)) \<Longrightarrow> filter (\<lambda>q. fst q \<noteq> fst p) (p # m) = m"
  by (auto simp: filter_absent)

lemma set_c_unfold:
  "set_c now key v c =
     (if num_gt (Fin (of_nat (length (inserted now key v c)))) (capacity c)
      then c\<lparr>cache := filter (\<lambda>p. fst p \<noteq> fst (hd (inserted now key v c))) (inserted now key v c)\<rparr>
      else c\<lparr>cache := inserted now key v c\<rparr>)"
proof -
  have fresh: "key \<notin> fst ` set (filter (\<lambda>p. fst p \<noteq> key) (cache c))" by auto
  have m2: "Map_set (snd (Map_delete (cache c) key)) key e =
            filter (\<lambda>p. fst p \<noteq> key) (cache c) @ [(key, e)]" for e
    using Map_set_fresh [OF fresh] by (simp add: Map_delete_def)
  have first: "Map_first_key m = Some (fst (hd m))" if "m \<noteq> []" for m :: "('k, 'v ValueHolder) js_map"
    using that by (cases m) auto
  have ne: "inserted now key v c \<noteq> []" by (simp add: inserted_def)
  show ?thesis
    unfolding set_c_def Let_def m2
    unfolding inserted_def [symmetric]
    by (simp add: first [OF ne] Map_delete_def)
qed

lemma distinct_inserted:
  "distinct (map fst (cache c)) \<Longrightarrow> distinct (map fst (inserted now key v c))"
  by (auto simp: inserted_def distinct_map_filter)

lemma length_inserted_le: "length (inserted now key v c) \<le> Suc (length (cache c))"
  by (simp add: inserted_def)

lemma length_inserted_present:
  "distinct (map fst (cache c)) \<Longrightarrow> key \<in> fst ` set (cache c) \<Longrightarrow>
   length (inserted now key v c) = length (cache c)"
  using length_filter_present [of "cache c" key] by (simp add: inserted_def)

lemma length_inserted_absent:
  "key \<notin> fst ` set (cache c) \<Longrightarrow> length (inserted now key v c) = Suc (length (cache c))"
  by (simp add: inserted_def filter_absent)

lemma drop_append_le: "n \<le> length xs \<Longrightarrow> drop n (xs @ ys) = drop n xs @ ys"
  by simp

lemma drop_oldest:
  "distinct (map fst m) \<Longrightarrow> m \<noteq> [] \<Longrightarrow> filter (\<lambda>p. fst p \<noteq> fst (hd m)) m = tl m"
  by (cases m) (auto simp: filter_absent)

section \<open>The invariant of a constructed cache\<close>

lemma inv_c_constructor:
  "constructor (Fin (of_nat N)) ttl = Inr c \<Longrightarrow> inv_c N ttl c"
  by (auto simp: constructor_def inv_c_def isNaturalNumber_of_nat split: if_splits)

lemma inv_c_set_c: "inv_c N ttl c \<Longrightarrow> inv_c N ttl (set_c now key v c)"
proof -
  assume inv: "inv_c N ttl c"
  let ?m = "inserted now key v c"
  have d: "distinct (map fst ?m)" using inv by (simp add: inv_c_def distinct_inserted)
  have ne: "?m \<noteq> []" by (simp add: inserted_def)
  have len: "length ?m \<le> Suc N" using inv length_inserted_le [of now key v c]
    by (simp add: inv_c_def)
  show ?thesis
  proof (cases "N < length ?m")
    case True
    then have "length (tl ?m) \<le> N" using len by simp
    moreover have "distinct (map fst (tl ?m))" using d by (simp add: distinct_tl map_tl)
    ultimately show ?thesis using inv True
      by (simp add: set_c_unfold inv_c_def drop_oldest [OF d ne])
  next
    case False
    then show ?thesis using inv d by (simp add: set_c_unfold inv_c_def)
  qed
qed

lemma getExpiringEntry_cache:
  "cache (snd (getExpiringEntry now key c)) = cache c \<or>
   cache (snd (getExpiringEntry now key c)) = filter (\<lambda>p. fst p \<noteq> key) (cache c)"
  by (simp add: getExpiringEntry_def Map_delete_def Let_def split: option.splits)

lemma getExpiringEntry_config:
  "capacity (snd (getExpiringEntry now key c)) = capacity c"
  "ttlMs (snd (getExpiringEntry now key c)) = ttlMs c"
  by (simp_all add: getExpiringEntry_def Let_def split: option.splits)

lemma get_dist_eq_get: "get_dist now key c = get now key c"
  by (simp add: get_dist_def get_def getExpiringEntry_def Let_def split: option.splits)

lemma snd_get: "snd (get now key c) = snd (getExpiringEntry now key c)"
  by (simp add: get_def getExpiringEntry_def Let_def split: option.splits)

lemma snd_has: "snd (has now key c) = snd (getExpiringEntry now key c)"
  by (simp add: has_def split: prod.splits option.splits)

lemma inv_c_filter:
  "inv_c N ttl c \<Longrightarrow> inv_c N ttl (c\<lparr>cache := filter (\<lambda>p. fst p \<noteq> key) (cache c)\<rparr>)"
  using le_trans [OF length_filter_le [of "\<lambda>p. fst p \<noteq> key" "cache c"], of N]
  by (simp add: inv_c_def distinct_map_filter)

lemma inv_c_getExpiringEntry:
  "inv_c N ttl c \<Longrightarrow> inv_c N ttl (snd (getExpiringEntry now key c))"
  using inv_c_filter [of N ttl c key]
  by (simp add: getExpiringEntry_def Map_delete_def Let_def split: option.splits)

lemma snd_delete: "snd (delete key c) = c\<lparr>cache := filter (\<lambda>p. fst p \<noteq> key) (cache c)\<rparr>"
  by (simp add: delete_def Map_delete_def)

lemma inv_c_step: "inv_c N ttl c \<Longrightarrow> inv_c N ttl (step call c)"
proof (cases call)
  case (Pair now x)
  assume inv: "inv_c N ttl c"
  show ?thesis
  proof (cases x)
    case (Set k v)
    with Pair inv show ?thesis by (simp add: inv_c_set_c)
  next
    case (Get k)
    with Pair inv show ?thesis by (simp add: snd_get inv_c_getExpiringEntry)
  next
    case (Has k)
    with Pair inv show ?thesis by (simp add: snd_has inv_c_getExpiringEntry)
  next
    case (Delete k)
    with Pair inv show ?thesis by (simp add: snd_delete inv_c_filter)
  next
    case Clear
    with Pair inv show ?thesis by (simp add: clear_def inv_c_def)
  qed
qed

lemma inv_c_run: "inv_c N ttl c \<Longrightarrow> inv_c N ttl (run ops c)"
  unfolding run_def by (induction ops arbitrary: c) (simp_all add: inv_c_step)

lemma inv_c_reachable:
  "constructor (Fin (of_nat N)) ttl = Inr c0 \<Longrightarrow> inv_c N ttl (run ops c0)"
  by (rule inv_c_run) (rule inv_c_constructor)


section \<open>Construction\<close>

lemma constructor_Fin:
  "(\<exists>c :: ('k, 'v) FIFOCache. constructor (Fin a) (Fin b) = Inr c) \<longleftrightarrow>
   (1 \<le> a \<and> a = of_int \<lfloor>a\<rfloor>) \<and> (1 \<le> b \<and> b = of_int \<lfloor>b\<rfloor>)"
  by (auto simp: constructor_def isNaturalNumber_Fin)

text \<open>
  C7: construction is to fail exactly when the capacity or the TTL is not a positive
  integer. On finite numbers it does (\<open>constructor_Fin\<close>). The value \<open>Infinity\<close> is not an
  integer, yet \<open>isNaturalNumber\<close> lets it through: its floor is itself, and it is at least
  1. A cache with an infinite capacity, or with an infinite TTL, is constructed.
\<close>

theorem constructor_accepts_Infinity:
  "isNaturalNumber PosInf \<and>
   (constructor PosInf (Fin 1000) :: error + (nat, nat) FIFOCache) =
     Inr \<lparr>capacity = PosInf, ttlMs = Fin 1000, cache = []\<rparr> \<and>
   (constructor (Fin 3) PosInf :: error + (nat, nat) FIFOCache) =
     Inr \<lparr>capacity = Fin 3, ttlMs = PosInf, cache = []\<rparr>"
  by (simp add: constructor_def isNaturalNumber_def)

section \<open>The capacity bound\<close>

text \<open>
  C2: a cache constructed with the positive integer \<open>N\<close> as capacity holds at most \<open>N\<close>
  entries after any sequence of \<open>set\<close>, \<open>get\<close>, \<open>has\<close>, \<open>delete\<close> and \<open>clear\<close> calls, at
  any clock readings. The sequence is arbitrary, so the bound holds after each of its
  calls.
\<close>

theorem size_le_capacity:
  assumes "constructor (Fin (of_nat N)) ttl = Inr c0"
  shows "size_c (run ops c0) \<le> N"
  using inv_c_reachable [OF assms, of ops] by (simp add: inv_c_def size_c_def)

theorem size_le_capacity_witness:
  "constructor (Fin (of_nat 2)) (Fin 1000) =
     Inr \<lparr>capacity = Fin 2, ttlMs = Fin 1000, cache = ([] :: (nat, nat ValueHolder) js_map)\<rparr> \<and>
   size_c (run [(0, Set 1 10), (1, Set 2 20), (2, Get 1), (3, Set 3 30), (4, Delete 7)]
     \<lparr>capacity = Fin 2, ttlMs = Fin 1000, cache = ([] :: (nat, nat ValueHolder) js_map)\<rparr>) \<le> 2"
proof -
  have h: "constructor (Fin (of_nat 2)) (Fin 1000) =
     Inr \<lparr>capacity = Fin 2, ttlMs = Fin 1000, cache = ([] :: (nat, nat ValueHolder) js_map)\<rparr>"
    by (simp add: constructor_def isNaturalNumber_def)
  show ?thesis using h size_le_capacity [OF h] by simp
qed

section \<open>Deleting\<close>

text \<open>
  C6: \<open>delete\<close> takes no clock reading, so it cannot look at staleness. It answers
  whether the key was stored, and so answers true for a stored entry that is stale at
  the reading \<open>now\<close>; it removes that entry and leaves every other key as it was; a
  \<open>get\<close> of the key afterwards, at any reading \<open>later\<close>, returns nothing and changes
  nothing.
\<close>

theorem delete_unconditional:
  "fst (delete key c) = (Map_get (cache c) key \<noteq> None) \<and>
   (\<forall>h. Map_get (cache c) key = Some h \<and>
        num_ge (Fin (of_int now)) (expirationTimestamp h) \<longrightarrow> fst (delete key c)) \<and>
   snd (delete key c) = c\<lparr>cache := filter (\<lambda>p. fst p \<noteq> key) (cache c)\<rparr> \<and>
   (\<forall>key'. key' \<noteq> key \<longrightarrow>
        Map_get (cache (snd (delete key c))) key' = Map_get (cache c) key') \<and>
   get later key (snd (delete key c)) = (None, snd (delete key c))"
proof -
  have answer: "fst (delete key c) = (Map_get (cache c) key \<noteq> None)"
    by (simp add: delete_def Map_delete_def Map_has_def)
  then have stale: "\<forall>h. Map_get (cache c) key = Some h \<and>
      num_ge (Fin (of_int now)) (expirationTimestamp h) \<longrightarrow> fst (delete key c)"
    by simp
  have post: "snd (delete key c) = c\<lparr>cache := filter (\<lambda>p. fst p \<noteq> key) (cache c)\<rparr>"
    by (rule snd_delete)
  have others: "\<forall>key'. key' \<noteq> key \<longrightarrow>
      Map_get (cache (snd (delete key c))) key' = Map_get (cache c) key'"
    by (simp add: post Map_get_filter_other)
  have "Map_get (cache (snd (delete key c))) key = None"
    by (simp add: post Map_get_filter_same)
  then have gone: "get later key (snd (delete key c)) = (None, snd (delete key c))"
    by (simp add: get_def)
  from answer stale post others gone show ?thesis by blast
qed

text \<open>The entry deleted here expired at 10, before the reading 30: the answer is true.\<close>

theorem delete_unconditional_witness:
  "fst (delete (1::nat)
     \<lparr>capacity = Fin 2, ttlMs = Fin 10,
      cache = [(1, \<lparr>val = (5::nat), expirationTimestamp = Fin 10\<rparr>)]\<rparr>) = True \<and>
   get 50 1 (snd (delete (1::nat)
     \<lparr>capacity = Fin 2, ttlMs = Fin 10,
      cache = [(1, \<lparr>val = (5::nat), expirationTimestamp = Fin 10\<rparr>)]\<rparr>)) =
     (None, \<lparr>capacity = Fin 2, ttlMs = Fin 10, cache = []\<rparr>)"
proof -
  let ?stale = "\<lparr>capacity = Fin 2, ttlMs = Fin 10,
      cache = [(1::nat, \<lparr>val = (5::nat), expirationTimestamp = Fin 10\<rparr>)]\<rparr>"
  note d = delete_unconditional [of 1 ?stale 30 50]
  from d have answer: "fst (delete 1 ?stale)" by simp
  from d have post: "snd (delete 1 ?stale) = \<lparr>capacity = Fin 2, ttlMs = Fin 10, cache = []\<rparr>"
    by simp
  from d have "get 50 1 (snd (delete 1 ?stale)) = (None, snd (delete 1 ?stale))"
    by blast
  with answer post show ?thesis by simp
qed

section \<open>Reading\<close>

text \<open>
  C4: \<open>has\<close> answers true exactly when the key is stored and its entry is not stale at
  the clock reading, which is exactly when \<open>get\<close> returns a value; it leaves the cache
  as \<open>get\<close> leaves it, so a stored stale entry is deleted and nothing else changes.
\<close>

theorem has_like_get:
  "fst (has now key c) =
     (case Map_get (cache c) key of
        None \<Rightarrow> False
      | Some h \<Rightarrow> \<not> num_ge (Fin (of_int now)) (expirationTimestamp h)) \<and>
   fst (has now key c) = (fst (get now key c) \<noteq> None) \<and>
   snd (has now key c) = snd (get now key c) \<and>
   snd (has now key c) =
     (if Map_get (cache c) key \<noteq> None \<and> \<not> fst (has now key c)
      then c\<lparr>cache := filter (\<lambda>p. fst p \<noteq> key) (cache c)\<rparr> else c)"
  by (simp add: has_def get_def getExpiringEntry_def Map_delete_def Let_def
      split: option.splits)

theorem has_like_get_witness:
  "has 9 (1::nat) \<lparr>capacity = Fin 2, ttlMs = Fin 10,
      cache = [(1, \<lparr>val = (5::nat), expirationTimestamp = Fin 10\<rparr>),
               (2, \<lparr>val = 6, expirationTimestamp = Fin 12\<rparr>)]\<rparr> =
     (True, \<lparr>capacity = Fin 2, ttlMs = Fin 10,
      cache = [(1, \<lparr>val = (5::nat), expirationTimestamp = Fin 10\<rparr>),
               (2, \<lparr>val = 6, expirationTimestamp = Fin 12\<rparr>)]\<rparr>) \<and>
   has 10 (1::nat) \<lparr>capacity = Fin 2, ttlMs = Fin 10,
      cache = [(1, \<lparr>val = (5::nat), expirationTimestamp = Fin 10\<rparr>),
               (2, \<lparr>val = 6, expirationTimestamp = Fin 12\<rparr>)]\<rparr> =
     (False, \<lparr>capacity = Fin 2, ttlMs = Fin 10,
      cache = [(2, \<lparr>val = 6, expirationTimestamp = Fin 12\<rparr>)]\<rparr>)"
  using
    has_like_get [of 9 "1::nat" "\<lparr>capacity = Fin 2, ttlMs = Fin 10,
      cache = [(1, \<lparr>val = (5::nat), expirationTimestamp = Fin 10\<rparr>),
               (2, \<lparr>val = 6, expirationTimestamp = Fin 12\<rparr>)]\<rparr>"]
    has_like_get [of 10 "1::nat" "\<lparr>capacity = Fin 2, ttlMs = Fin 10,
      cache = [(1, \<lparr>val = (5::nat), expirationTimestamp = Fin 10\<rparr>),
               (2, \<lparr>val = 6, expirationTimestamp = Fin 12\<rparr>)]\<rparr>"]
  by (simp add: has_def getExpiringEntry_def Map_delete_def)

text \<open>
  C8: a \<open>get\<close> of a key that is stored and not stale returns the stored value and the
  cache it was given: no entry moves, no timestamp changes, nothing is removed.
\<close>

theorem get_live_unchanged:
  assumes "Map_get (cache c) key = Some h"
      and "\<not> num_ge (Fin (of_int now)) (expirationTimestamp h)"
  shows "get now key c = (Some (val h), c)"
  using assms by (simp add: get_def)

theorem get_live_unchanged_witness:
  "Map_get (cache \<lparr>capacity = Fin 2, ttlMs = Fin 10,
      cache = [(1::nat, \<lparr>val = (5::nat), expirationTimestamp = Fin 10\<rparr>),
               (2, \<lparr>val = 6, expirationTimestamp = Fin 12\<rparr>)]\<rparr>) 2 =
     Some \<lparr>val = 6, expirationTimestamp = Fin 12\<rparr> \<and>
   \<not> num_ge (Fin (of_int 11)) (expirationTimestamp \<lparr>val = (6::nat), expirationTimestamp = Fin 12\<rparr>) \<and>
   get 11 2 \<lparr>capacity = Fin 2, ttlMs = Fin 10,
      cache = [(1::nat, \<lparr>val = (5::nat), expirationTimestamp = Fin 10\<rparr>),
               (2, \<lparr>val = 6, expirationTimestamp = Fin 12\<rparr>)]\<rparr> =
     (Some 6, \<lparr>capacity = Fin 2, ttlMs = Fin 10,
      cache = [(1::nat, \<lparr>val = (5::nat), expirationTimestamp = Fin 10\<rparr>),
               (2, \<lparr>val = 6, expirationTimestamp = Fin 12\<rparr>)]\<rparr>)"
proof -
  let ?c = "\<lparr>capacity = Fin 2, ttlMs = Fin 10,
      cache = [(1::nat, \<lparr>val = (5::nat), expirationTimestamp = Fin 10\<rparr>),
               (2, \<lparr>val = 6, expirationTimestamp = Fin 12\<rparr>)]\<rparr>"
  let ?h = "\<lparr>val = (6::nat), expirationTimestamp = Fin 12\<rparr>"
  have a: "Map_get (cache ?c) 2 = Some ?h" by simp
  have b: "\<not> num_ge (Fin (of_int 11)) (expirationTimestamp ?h)" by simp
  show ?thesis using a b get_live_unchanged [OF a b] by simp
qed


text \<open>
  C10: a \<open>get\<close> that returns nothing, on a cache reached from a constructed one, changes
  at most the entry of the key it asked for. If the key was not stored, the cache is the
  one it was given. If it was stored (and so stale), the cache loses that one entry: the
  size drops by one, every other key keeps its value and expiration timestamp, and the
  other entries keep their order.
\<close>

theorem get_absent_frame:
  assumes "constructor (Fin (of_nat N)) ttl = Inr c0"
      and "c = run ops c0"
      and "fst (get now key c) = None"
  shows "(Map_get (cache c) key = None \<longrightarrow> snd (get now key c) = c) \<and>
         (Map_get (cache c) key \<noteq> None \<longrightarrow>
            snd (get now key c) = c\<lparr>cache := filter (\<lambda>p. fst p \<noteq> key) (cache c)\<rparr> \<and>
            Suc (size_c (snd (get now key c))) = size_c c) \<and>
         (\<forall>key'. key' \<noteq> key \<longrightarrow>
            Map_get (cache (snd (get now key c))) key' = Map_get (cache c) key') \<and>
         filter (\<lambda>p. fst p \<noteq> key) (cache (snd (get now key c))) =
           filter (\<lambda>p. fst p \<noteq> key) (cache c)"
proof -
  have d: "distinct (map fst (cache c))"
    using inv_c_reachable [OF assms(1), of ops] assms(2) by (simp add: inv_c_def)
  show ?thesis
  proof (cases "Map_get (cache c) key")
    case None
    then show ?thesis by (simp add: get_def)
  next
    case (Some h)
    then have mem: "key \<in> fst ` set (cache c)"
      using Map_get_None_iff [of "cache c" key] by simp
    from Some assms(3) have stale: "num_ge (Fin (of_int now)) (expirationTimestamp h)"
      by (simp add: get_def split: if_splits)
    from Some stale have post:
      "snd (get now key c) = c\<lparr>cache := filter (\<lambda>p. fst p \<noteq> key) (cache c)\<rparr>"
      by (simp add: get_def Map_delete_def)
    show ?thesis
      using Some length_filter_present [OF d mem]
      by (simp add: post size_c_def Map_get_filter_other)
  qed
qed

theorem get_absent_frame_witness:
  "constructor (Fin (of_nat 2)) (Fin 10) =
     Inr \<lparr>capacity = Fin 2, ttlMs = Fin 10, cache = ([] :: (nat, nat ValueHolder) js_map)\<rparr> \<and>
   run [(0, Set 1 5), (2, Set 2 6)]
     \<lparr>capacity = Fin 2, ttlMs = Fin 10, cache = ([] :: (nat, nat ValueHolder) js_map)\<rparr> =
     \<lparr>capacity = Fin 2, ttlMs = Fin 10,
      cache = [(1, \<lparr>val = 5, expirationTimestamp = Fin 10\<rparr>),
               (2, \<lparr>val = 6, expirationTimestamp = Fin 12\<rparr>)]\<rparr> \<and>
   get 10 1 \<lparr>capacity = Fin 2, ttlMs = Fin 10,
      cache = [(1::nat, \<lparr>val = (5::nat), expirationTimestamp = Fin 10\<rparr>),
               (2, \<lparr>val = 6, expirationTimestamp = Fin 12\<rparr>)]\<rparr> =
     (None, \<lparr>capacity = Fin 2, ttlMs = Fin 10,
      cache = [(2, \<lparr>val = 6, expirationTimestamp = Fin 12\<rparr>)]\<rparr>)"
proof -
  let ?init = "\<lparr>capacity = Fin 2, ttlMs = Fin 10, cache = ([] :: (nat, nat ValueHolder) js_map)\<rparr>"
  let ?full = "\<lparr>capacity = Fin 2, ttlMs = Fin 10,
      cache = [(1::nat, \<lparr>val = (5::nat), expirationTimestamp = Fin 10\<rparr>),
               (2, \<lparr>val = 6, expirationTimestamp = Fin 12\<rparr>)]\<rparr>"
  have a: "constructor (Fin (of_nat 2)) (Fin 10) = Inr ?init"
    by (simp add: constructor_def isNaturalNumber_def)
  have b: "?full = run [(0, Set 1 5), (2, Set 2 6)] ?init"
    by (simp add: run_def set_c_def Map_delete_def Let_def round_double_Ints)
  have c: "fst (get 10 1 ?full) = None"
    by (simp add: get_def)
  have stored: "Map_get (cache ?full) 1 \<noteq> None" by simp
  from get_absent_frame [OF a b c] stored
  have "snd (get 10 1 ?full) = ?full\<lparr>cache := filter (\<lambda>p. fst p \<noteq> 1) (cache ?full)\<rparr>"
    by blast
  with c have "get 10 1 ?full =
     (None, \<lparr>capacity = Fin 2, ttlMs = Fin 10,
      cache = [(2, \<lparr>val = 6, expirationTimestamp = Fin 12\<rparr>)]\<rparr>)"
    by (simp add: prod_eq_iff)
  with a b [symmetric] show ?thesis by simp
qed


section \<open>Writing\<close>

lemma inserted_source:
  "Map_set (snd (Map_delete (cache c) key)) key
     \<lparr>val = v, expirationTimestamp = num_add (Fin (of_int now)) (ttlMs c)\<rparr> =
   inserted now key v c"
proof -
  have "key \<notin> fst ` set (filter (\<lambda>p. fst p \<noteq> key) (cache c))" by auto
  then show ?thesis by (simp add: Map_set_fresh Map_delete_def inserted_def)
qed

lemma set_c_present:
  assumes "inv_c N ttl c" and "key \<in> fst ` set (cache c)"
  shows "set_c now key v c = c\<lparr>cache := inserted now key v c\<rparr>"
proof -
  have "length (inserted now key v c) = length (cache c)"
    using assms by (simp add: inv_c_def length_inserted_present)
  then show ?thesis using assms(1) by (simp add: set_c_unfold inv_c_def)
qed

lemma set_c_absent:
  assumes "inv_c N ttl c" and "key \<notin> fst ` set (cache c)"
  shows "cache (set_c now key v c) =
         drop (Suc (length (cache c)) - N)
           (cache c @ [(key, \<lparr>val = v, expirationTimestamp = num_add (Fin (of_int now)) ttl\<rparr>)])"
proof -
  let ?e = "(key, \<lparr>val = v, expirationTimestamp = num_add (Fin (of_int now)) ttl\<rparr>)"
  have ins: "inserted now key v c = cache c @ [?e]"
    using assms by (simp add: inserted_def filter_absent inv_c_def)
  have d: "distinct (map fst (inserted now key v c))"
    using assms(1) by (simp add: inv_c_def distinct_inserted)
  have ne: "inserted now key v c \<noteq> []" by (simp add: inserted_def)
  have le: "length (cache c) \<le> N" and cap: "capacity c = Fin (of_nat N)"
    using assms(1) by (simp_all add: inv_c_def)
  show ?thesis
  proof (cases "length (cache c) = N")
    case True
    then have over: "num_gt (Fin (of_nat (length (inserted now key v c)))) (capacity c)"
      by (simp add: cap ins)
    have "cache (set_c now key v c) =
          filter (\<lambda>p. fst p \<noteq> fst (hd (inserted now key v c))) (inserted now key v c)"
      using over by (simp add: set_c_unfold)
    also have "\<dots> = tl (inserted now key v c)"
      by (rule drop_oldest [OF d ne])
    finally have evicted: "cache (set_c now key v c) = tl (inserted now key v c)" .
    have n: "1 \<le> N" using assms(1) by (simp add: inv_c_def)
    with True have "cache c \<noteq> []" by auto
    moreover from n have "Suc 0 - N = 0" by simp
    ultimately have "tl (cache c @ [?e]) = drop (Suc (length (cache c)) - N) (cache c @ [?e])"
      using True by (simp add: drop_Suc)
    with evicted show ?thesis by (simp only: ins)
  next
    case False
    with le have "length (cache c) < N" by simp
    then show ?thesis by (simp add: set_c_unfold cap ins)
  qed
qed

lemma Map_get_set_c:
  assumes "inv_c N ttl c"
  shows "Map_get (cache (set_c now key v c)) key =
         Some \<lparr>val = v, expirationTimestamp = num_add (Fin (of_int now)) ttl\<rparr>"
proof -
  let ?h = "\<lparr>val = v, expirationTimestamp = num_add (Fin (of_int now)) ttl\<rparr>"
  have t: "ttlMs c = ttl" and n: "1 \<le> N" and le: "length (cache c) \<le> N"
    using assms by (simp_all add: inv_c_def)
  show ?thesis
  proof (cases "key \<in> fst ` set (cache c)")
    case True
    show ?thesis
      by (simp add: set_c_present [OF assms True] inserted_def t Map_get_append
          Map_get_filter_same)
  next
    case False
    then have none: "Map_get (cache c) key = None" by (simp add: Map_get_None_iff)
    show ?thesis
    proof (cases "length (cache c) = N")
      case full: True
      then obtain p m where pm: "cache c = p # m" using n by (cases "cache c") auto
      with False have "fst p \<noteq> key" by auto
      with none pm have "Map_get m key = None" by (cases p) simp
      then show ?thesis
        using full pm by (simp add: set_c_absent [OF assms False] Map_get_append)
    next
      case notfull: False
      with le have "Suc (length (cache c)) - N = 0" by simp
      then show ?thesis
        using none by (simp add: set_c_absent [OF assms False] Map_get_append)
    qed
  qed
qed

section \<open>Expiration\<close>

lemma evicted_key_unfold:
  "evicted_key now k v c =
     (if num_gt (Fin (of_nat (length (inserted now k v c)))) (capacity c)
      then Some (fst (hd (inserted now k v c))) else None)"
proof -
  have "inserted now k v c \<noteq> []" by (simp add: inserted_def)
  then have "Map_first_key (inserted now k v c) = Some (fst (hd (inserted now k v c)))"
    by (cases "inserted now k v c") auto
  then show ?thesis
    unfolding evicted_key_def Let_def inserted_source by simp
qed

lemma Map_get_inserted_other:
  "key \<noteq> k \<Longrightarrow> Map_get (inserted now k v c) key = Map_get (cache c) key"
  by (simp add: inserted_def Map_get_append Map_get_filter_other split: option.splits)

text \<open>
  A call that leaves the key alone leaves its entry as it is, unless the call is a read
  of the key at a clock reading at which the entry is stale: then the entry is gone.
\<close>

lemma keeps_step:
  assumes "keeps key x c"
  shows "Map_get (cache (step x c)) key = Map_get (cache c) key \<or>
         (Map_get (cache (step x c)) key = None \<and>
          (\<exists>h. Map_get (cache c) key = Some h \<and>
               num_ge (Fin (of_int (fst x))) (expirationTimestamp h)))"
proof -
  obtain now call where x: "x = (now, call)" by (cases x) auto
  have read: "Map_get (cache (snd (get now k c))) key = Map_get (cache c) key \<or>
      (Map_get (cache (snd (get now k c))) key = None \<and>
       (\<exists>h. Map_get (cache c) key = Some h \<and>
            num_ge (Fin (of_int now)) (expirationTimestamp h)))" for k
  proof (cases "Map_get (cache c) k")
    case None
    then show ?thesis by (simp add: get_def)
  next
    case (Some h)
    show ?thesis
    proof (cases "num_ge (Fin (of_int now)) (expirationTimestamp h)")
      case live: False
      with Some show ?thesis by (simp add: get_def)
    next
      case stale: True
      with Some have post: "cache (snd (get now k c)) = filter (\<lambda>p. fst p \<noteq> k) (cache c)"
        by (simp add: get_def Map_delete_def)
      show ?thesis
      proof (cases "k = key")
        case True
        from True Some stale post show ?thesis by (simp add: Map_get_filter_same)
      next
        case False
        then show ?thesis by (simp add: post Map_get_filter_other)
      qed
    qed
  qed
  show ?thesis
  proof (cases call)
    case (Set k v)
    with assms x have ne: "k \<noteq> key" and ev: "evicted_key now k v c \<noteq> Some key"
      by simp_all
    have "Map_get (cache (set_c now k v c)) key = Map_get (cache c) key"
    proof (cases "num_gt (Fin (of_nat (length (inserted now k v c)))) (capacity c)")
      case True
      with ev have "key \<noteq> fst (hd (inserted now k v c))"
        by (simp add: evicted_key_unfold)
      with True ne show ?thesis
        by (simp add: set_c_unfold Map_get_filter_other Map_get_inserted_other)
    next
      case False
      with ne show ?thesis by (simp add: set_c_unfold Map_get_inserted_other)
    qed
    with x Set show ?thesis by simp
  next
    case (Get k)
    with x read [of k] show ?thesis by simp
  next
    case (Has k)
    with x read [of k] show ?thesis by (simp add: snd_has snd_get [symmetric])
  next
    case (Delete k)
    with assms x have "k \<noteq> key" by simp
    with x Delete show ?thesis by (simp add: snd_delete Map_get_filter_other)
  next
    case Clear
    with assms x show ?thesis by simp
  qed
qed

lemma kept_run:
  assumes "kept key ops c"
  shows "Map_get (cache (run ops c)) key = Map_get (cache c) key \<or>
         (Map_get (cache (run ops c)) key = None \<and>
          (\<exists>h x. Map_get (cache c) key = Some h \<and> x \<in> set ops \<and>
                 num_ge (Fin (of_int (fst x))) (expirationTimestamp h)))"
  using assms
proof (induction ops arbitrary: c)
  case Nil
  show ?case by (simp add: run_def)
next
  case (Cons x xs)
  from Cons.prems have kx: "keeps key x c" and kxs: "kept key xs (step x c)"
    by simp_all
  have unroll: "run (x # xs) c = run xs (step x c)" by (simp add: run_def)
  note first = keeps_step [OF kx]
  note rest = Cons.IH [OF kxs]
  show ?case
  proof (cases "Map_get (cache (step x c)) key = Map_get (cache c) key")
    case True
    with rest show ?thesis unfolding unroll by auto
  next
    case False
    with first obtain h where gone: "Map_get (cache (step x c)) key = None"
      and h: "Map_get (cache c) key = Some h"
      and stale: "num_ge (Fin (of_int (fst x))) (expirationTimestamp h)"
      by blast
    from rest gone have "Map_get (cache (run xs (step x c))) key = None" by auto
    moreover have "x \<in> set (x # xs)" by simp
    ultimately show ?thesis using h stale unfolding unroll by blast
  qed
qed

text \<open>
  C1: on a cache constructed with the positive integers \<open>N\<close> and \<open>ttl\<close>, a \<open>set\<close> of a key
  at a clock reading \<open>T\<close> with \<open>T + ttl\<close> at most \<open>2 ^ 53\<close> in size stores the value with
  the expiration timestamp \<open>T + ttl\<close>. Let calls \<open>ops'\<close> follow that neither delete, nor
  overwrite, nor evict the key. Then a \<open>get\<close> of the key at a reading \<open>now\<close> below
  \<open>T + ttl\<close>, the calls in between having been made at readings up to \<open>now\<close>, returns the
  value and leaves the cache alone; and a \<open>get\<close> at \<open>T + ttl\<close> or later returns nothing.
\<close>

theorem ttl_expiration:
  assumes "constructor (Fin (of_nat N)) (Fin (of_int ttl)) = Inr c0"
      and "\<bar>T + ttl\<bar> \<le> 2 ^ 53"
      and "c1 = set_c T key v (run ops c0)"
      and "kept key ops' c1"
      and "c2 = run ops' c1"
  shows "Map_get (cache c1) key =
           Some \<lparr>val = v, expirationTimestamp = Fin (of_int (T + ttl))\<rparr> \<and>
         (now < T + ttl \<and> (\<forall>x \<in> set ops'. fst x \<le> now) \<longrightarrow>
            get now key c2 = (Some v, c2)) \<and>
         (T + ttl \<le> now \<longrightarrow> fst (get now key c2) = None)"
proof -
  let ?h = "\<lparr>val = v, expirationTimestamp = Fin (of_int (T + ttl))\<rparr>"
  have "inv_c N (Fin (of_int ttl)) (run ops c0)"
    by (rule inv_c_reachable [OF assms(1)])
  then have "Map_get (cache c1) key =
      Some \<lparr>val = v, expirationTimestamp = num_add (Fin (of_int T)) (Fin (of_int ttl))\<rparr>"
    unfolding assms(3) by (rule Map_get_set_c)
  then have stored: "Map_get (cache c1) key = Some ?h"
    by (simp only: num_add_of_int [OF assms(2)])
  have after: "Map_get (cache c2) key = Some ?h \<or>
      (Map_get (cache c2) key = None \<and>
       (\<exists>x \<in> set ops'. num_ge (Fin (of_int (fst x))) (expirationTimestamp ?h)))"
  proof -
    from kept_run [OF assms(4)]
    consider (same) "Map_get (cache c2) key = Map_get (cache c1) key"
      | (gone) h x where "Map_get (cache c2) key = None" "Map_get (cache c1) key = Some h"
          "x \<in> set ops'" "num_ge (Fin (of_int (fst x))) (expirationTimestamp h)"
      unfolding assms(5) by blast
    then show ?thesis
    proof cases
      case same
      with stored show ?thesis by simp
    next
      case gone
      from gone(2) stored have "h = ?h" by simp
      with gone(1,3,4) show ?thesis by blast
    qed
  qed
  have live: "get now key c2 = (Some v, c2)"
    if "now < T + ttl" and clock: "\<forall>x \<in> set ops'. fst x \<le> now"
  proof -
    have "\<not> num_ge (Fin (of_int (fst x))) (expirationTimestamp ?h)" if "x \<in> set ops'" for x
    proof -
      from clock that have "fst x \<le> now" by blast
      with \<open>now < T + ttl\<close> have "fst x < T + ttl" by simp
      then have "\<not> (of_int (T + ttl) :: rat) \<le> of_int (fst x)"
        unfolding of_int_le_iff by simp
      then show ?thesis by simp
    qed
    with after have "Map_get (cache c2) key = Some ?h" by blast
    moreover have "\<not> num_ge (Fin (of_int now)) (expirationTimestamp ?h)"
    proof -
      from \<open>now < T + ttl\<close> have "\<not> (of_int (T + ttl) :: rat) \<le> of_int now"
        unfolding of_int_le_iff by simp
      then show ?thesis by simp
    qed
    ultimately show ?thesis by (simp add: get_def)
  qed
  have stale: "fst (get now key c2) = None" if "T + ttl \<le> now"
  proof -
    from that have "(of_int (T + ttl) :: rat) \<le> of_int now"
      unfolding of_int_le_iff .
    then have "num_ge (Fin (of_int now)) (expirationTimestamp ?h)" by simp
    with after show ?thesis by (auto simp: get_def)
  qed
  from stored live stale show ?thesis by blast
qed

text \<open>
  Capacity 2, TTL 10. Key 7 is set at 1 and key 1 at 5; then key 2 is set at 8, which
  evicts key 7, and key 1 is read at 9. Key 1 is read again at 14 and at 15.
\<close>

theorem ttl_expiration_witness:
  "constructor (Fin (of_nat 2)) (Fin (of_int 10)) =
     Inr \<lparr>capacity = Fin 2, ttlMs = Fin 10, cache = ([] :: (nat, nat ValueHolder) js_map)\<rparr> \<and>
   \<bar>5 + 10 :: int\<bar> \<le> 2 ^ 53 \<and>
   set_c 5 1 5 (run [(1, Set 7 4)]
     \<lparr>capacity = Fin 2, ttlMs = Fin 10, cache = ([] :: (nat, nat ValueHolder) js_map)\<rparr>) =
     \<lparr>capacity = Fin 2, ttlMs = Fin 10,
      cache = [(7, \<lparr>val = 4, expirationTimestamp = Fin 11\<rparr>),
               (1, \<lparr>val = 5, expirationTimestamp = Fin 15\<rparr>)]\<rparr> \<and>
   kept 1 [(8, Set 2 6), (9, Get 1)]
     \<lparr>capacity = Fin 2, ttlMs = Fin 10,
      cache = [(7::nat, \<lparr>val = (4::nat), expirationTimestamp = Fin 11\<rparr>),
               (1, \<lparr>val = 5, expirationTimestamp = Fin 15\<rparr>)]\<rparr> \<and>
   run [(8, Set 2 6), (9, Get 1)]
     \<lparr>capacity = Fin 2, ttlMs = Fin 10,
      cache = [(7::nat, \<lparr>val = (4::nat), expirationTimestamp = Fin 11\<rparr>),
               (1, \<lparr>val = 5, expirationTimestamp = Fin 15\<rparr>)]\<rparr> =
     \<lparr>capacity = Fin 2, ttlMs = Fin 10,
      cache = [(1, \<lparr>val = 5, expirationTimestamp = Fin 15\<rparr>),
               (2, \<lparr>val = 6, expirationTimestamp = Fin 18\<rparr>)]\<rparr> \<and>
   fst (get 14 1 \<lparr>capacity = Fin 2, ttlMs = Fin 10,
      cache = [(1::nat, \<lparr>val = (5::nat), expirationTimestamp = Fin 15\<rparr>),
               (2, \<lparr>val = 6, expirationTimestamp = Fin 18\<rparr>)]\<rparr>) = Some 5 \<and>
   fst (get 15 1 \<lparr>capacity = Fin 2, ttlMs = Fin 10,
      cache = [(1::nat, \<lparr>val = (5::nat), expirationTimestamp = Fin 15\<rparr>),
               (2, \<lparr>val = 6, expirationTimestamp = Fin 18\<rparr>)]\<rparr>) = None"
proof -
  let ?init = "\<lparr>capacity = Fin 2, ttlMs = Fin 10, cache = ([] :: (nat, nat ValueHolder) js_map)\<rparr>"
  let ?one = "\<lparr>capacity = Fin 2, ttlMs = Fin 10,
      cache = [(7::nat, \<lparr>val = (4::nat), expirationTimestamp = Fin 11\<rparr>),
               (1, \<lparr>val = 5, expirationTimestamp = Fin 15\<rparr>)]\<rparr>"
  let ?two = "\<lparr>capacity = Fin 2, ttlMs = Fin 10,
      cache = [(1::nat, \<lparr>val = (5::nat), expirationTimestamp = Fin 15\<rparr>),
               (2, \<lparr>val = 6, expirationTimestamp = Fin 18\<rparr>)]\<rparr>"
  let ?later = "[(8::int, Set (2::nat) (6::nat)), (9, Get 1)]"
  have a: "constructor (Fin (of_nat 2)) (Fin (of_int 10)) = Inr ?init"
    by (simp add: constructor_def isNaturalNumber_def)
  have bound: "\<bar>5 + 10 :: int\<bar> \<le> 2 ^ 53" by simp
  have b: "?one = set_c 5 1 5 (run [(1, Set 7 4)] ?init)"
    by (simp add: run_def set_c_def Map_delete_def Let_def round_double_Ints)
  have k: "kept 1 ?later ?one"
    by (simp add: evicted_key_def set_c_def Map_delete_def Let_def round_double_Ints)
  have c: "?two = run ?later ?one"
    by (simp add: run_def set_c_def get_def Map_delete_def Let_def round_double_Ints)
  have clock: "\<forall>x \<in> set ?later. fst x \<le> 14" by simp
  have live: "fst (get 14 1 ?two) = Some 5"
    using ttl_expiration [OF a bound b k c, of 14] clock by simp
  have stale: "fst (get 15 1 ?two) = None"
    using ttl_expiration [OF a bound b k c, of 15] by simp
  from a bound b [symmetric] k c [symmetric] live stale show ?thesis by simp
qed

section \<open>Overwriting a stored key\<close>

text \<open>
  C5: on a cache reached from a constructed one, a \<open>set\<close> of a key that is stored takes
  the old entry out and appends the new one: the key now holds the new value, its
  expiration timestamp is the sum of the clock reading and the TTL that the call
  computes, the size is what it was, and the key is the youngest entry, whatever its
  position was. The timestamp is the integer \<open>now + ttl\<close> when that is at most \<open>2 ^ 53\<close>
  in size.
\<close>

theorem set_existing_updates:
  assumes "constructor (Fin (of_nat N)) (Fin (of_int ttl)) = Inr c0"
      and "c = run ops c0"
      and "Map_get (cache c) key \<noteq> None"
  shows "set_c now key v c =
           c\<lparr>cache := filter (\<lambda>p. fst p \<noteq> key) (cache c) @
              [(key, \<lparr>val = v, expirationTimestamp =
                  num_add (Fin (of_int now)) (Fin (of_int ttl))\<rparr>)]\<rparr> \<and>
         size_c (set_c now key v c) = size_c c \<and>
         last (cache (set_c now key v c)) =
           (key, \<lparr>val = v, expirationTimestamp =
              num_add (Fin (of_int now)) (Fin (of_int ttl))\<rparr>) \<and>
         (\<bar>now + ttl\<bar> \<le> 2 ^ 53 \<longrightarrow>
            Map_get (cache (set_c now key v c)) key =
              Some \<lparr>val = v, expirationTimestamp = Fin (of_int (now + ttl))\<rparr>)"
proof -
  let ?h = "\<lparr>val = v, expirationTimestamp = num_add (Fin (of_int now)) (Fin (of_int ttl))\<rparr>"
  have inv: "inv_c N (Fin (of_int ttl)) c"
    unfolding assms(2) by (rule inv_c_reachable [OF assms(1)])
  have mem: "key \<in> fst ` set (cache c)"
    using assms(3) by (simp add: Map_get_None_iff)
  have t: "ttlMs c = Fin (of_int ttl)" and d: "distinct (map fst (cache c))"
    using inv by (simp_all add: inv_c_def)
  have "set_c now key v c = c\<lparr>cache := inserted now key v c\<rparr>"
    by (rule set_c_present [OF inv mem])
  then have eq: "set_c now key v c =
      c\<lparr>cache := filter (\<lambda>p. fst p \<noteq> key) (cache c) @ [(key, ?h)]\<rparr>"
    by (simp only: inserted_def t)
  have len: "size_c (set_c now key v c) = size_c c"
    using length_filter_present [OF d mem] by (simp add: eq size_c_def del: num_add.simps)
  have youngest: "last (cache (set_c now key v c)) = (key, ?h)"
    by (simp add: eq del: num_add.simps)
  have stored: "Map_get (cache (set_c now key v c)) key = Some ?h"
    by (rule Map_get_set_c [OF inv])
  have exact: "Map_get (cache (set_c now key v c)) key =
      Some \<lparr>val = v, expirationTimestamp = Fin (of_int (now + ttl))\<rparr>"
    if "\<bar>now + ttl\<bar> \<le> 2 ^ 53"
    using stored by (simp only: num_add_of_int [OF that])
  from eq len youngest exact show ?thesis by blast
qed

theorem set_existing_updates_witness:
  "constructor (Fin (of_nat 2)) (Fin (of_int 10)) =
     Inr \<lparr>capacity = Fin 2, ttlMs = Fin 10, cache = ([] :: (nat, nat ValueHolder) js_map)\<rparr> \<and>
   run [(0, Set 1 5), (2, Set 2 6)]
     \<lparr>capacity = Fin 2, ttlMs = Fin 10, cache = ([] :: (nat, nat ValueHolder) js_map)\<rparr> =
     \<lparr>capacity = Fin 2, ttlMs = Fin 10,
      cache = [(1, \<lparr>val = 5, expirationTimestamp = Fin 10\<rparr>),
               (2, \<lparr>val = 6, expirationTimestamp = Fin 12\<rparr>)]\<rparr> \<and>
   set_c 7 1 8 \<lparr>capacity = Fin 2, ttlMs = Fin 10,
      cache = [(1::nat, \<lparr>val = (5::nat), expirationTimestamp = Fin 10\<rparr>),
               (2, \<lparr>val = 6, expirationTimestamp = Fin 12\<rparr>)]\<rparr> =
     \<lparr>capacity = Fin 2, ttlMs = Fin 10,
      cache = [(2, \<lparr>val = 6, expirationTimestamp = Fin 12\<rparr>),
               (1, \<lparr>val = 8, expirationTimestamp = Fin 17\<rparr>)]\<rparr>"
proof -
  let ?init = "\<lparr>capacity = Fin 2, ttlMs = Fin 10, cache = ([] :: (nat, nat ValueHolder) js_map)\<rparr>"
  let ?two = "\<lparr>capacity = Fin 2, ttlMs = Fin 10,
      cache = [(1::nat, \<lparr>val = (5::nat), expirationTimestamp = Fin 10\<rparr>),
               (2, \<lparr>val = 6, expirationTimestamp = Fin 12\<rparr>)]\<rparr>"
  have a: "constructor (Fin (of_nat 2)) (Fin (of_int 10)) = Inr ?init"
    by (simp add: constructor_def isNaturalNumber_def)
  have b: "?two = run [(0, Set 1 5), (2, Set 2 6)] ?init"
    by (simp add: run_def set_c_def Map_delete_def Let_def round_double_Ints)
  have c: "Map_get (cache ?two) 1 \<noteq> None" by simp
  have "set_c 7 1 8 ?two =
     \<lparr>capacity = Fin 2, ttlMs = Fin 10,
      cache = [(2, \<lparr>val = 6, expirationTimestamp = Fin 12\<rparr>),
               (1, \<lparr>val = 8, expirationTimestamp = Fin 17\<rparr>)]\<rparr>"
    using set_existing_updates [OF a b c, of 7 8] by (simp add: round_double_Ints)
  with a b [symmetric] show ?thesis by simp
qed

text \<open>
  C9: on a cache reached from a constructed one, a \<open>set\<close> of a key that is stored evicts
  nothing, also when the cache is full: what is stored after the insertion does not
  exceed the capacity, so the eviction branch is not taken; every other key keeps its
  entry, the other entries keep their order, and the set of stored keys is the same.
\<close>

theorem set_existing_no_eviction:
  assumes "constructor (Fin (of_nat N)) (Fin (of_int ttl)) = Inr c0"
      and "c = run ops c0"
      and "Map_get (cache c) key \<noteq> None"
  shows "\<not> num_gt
            (Fin (of_nat (length (Map_set (snd (Map_delete (cache c) key)) key
               \<lparr>val = v, expirationTimestamp = num_add (Fin (of_int now)) (ttlMs c)\<rparr>))))
            (capacity c) \<and>
         (\<forall>key'. key' \<noteq> key \<longrightarrow>
            Map_get (cache (set_c now key v c)) key' = Map_get (cache c) key') \<and>
         filter (\<lambda>p. fst p \<noteq> key) (cache (set_c now key v c)) =
           filter (\<lambda>p. fst p \<noteq> key) (cache c) \<and>
         fst ` set (cache (set_c now key v c)) = fst ` set (cache c)"
proof -
  have inv: "inv_c N (Fin (of_int ttl)) c"
    unfolding assms(2) by (rule inv_c_reachable [OF assms(1)])
  have mem: "key \<in> fst ` set (cache c)"
    using assms(3) by (simp add: Map_get_None_iff)
  have cap: "capacity c = Fin (of_nat N)" and le: "length (cache c) \<le> N"
    and d: "distinct (map fst (cache c))"
    using inv by (simp_all add: inv_c_def)
  have eq: "cache (set_c now key v c) = inserted now key v c"
    by (simp add: set_c_present [OF inv mem])
  have branch: "\<not> num_gt (Fin (of_nat (length (inserted now key v c)))) (capacity c)"
    using le by (simp add: length_inserted_present [OF d mem] cap)
  have others: "\<forall>key'. key' \<noteq> key \<longrightarrow>
      Map_get (cache (set_c now key v c)) key' = Map_get (cache c) key'"
    by (simp add: eq inserted_def Map_get_append Map_get_filter_other split: option.splits)
  have order: "filter (\<lambda>p. fst p \<noteq> key) (cache (set_c now key v c)) =
      filter (\<lambda>p. fst p \<noteq> key) (cache c)"
    by (simp add: eq inserted_def)
  have keys: "fst ` set (cache (set_c now key v c)) = fst ` set (cache c)"
    using mem by (auto simp: eq inserted_def)
  from branch others order keys show ?thesis
    by (simp only: inserted_source) blast
qed

theorem set_existing_no_eviction_witness:
  "constructor (Fin (of_nat 2)) (Fin (of_int 10)) =
     Inr \<lparr>capacity = Fin 2, ttlMs = Fin 10, cache = ([] :: (nat, nat ValueHolder) js_map)\<rparr> \<and>
   run [(0, Set 1 5), (2, Set 2 6)]
     \<lparr>capacity = Fin 2, ttlMs = Fin 10, cache = ([] :: (nat, nat ValueHolder) js_map)\<rparr> =
     \<lparr>capacity = Fin 2, ttlMs = Fin 10,
      cache = [(1, \<lparr>val = 5, expirationTimestamp = Fin 10\<rparr>),
               (2, \<lparr>val = 6, expirationTimestamp = Fin 12\<rparr>)]\<rparr> \<and>
   Map_get (cache (set_c 7 1 8 \<lparr>capacity = Fin 2, ttlMs = Fin 10,
      cache = [(1::nat, \<lparr>val = (5::nat), expirationTimestamp = Fin 10\<rparr>),
               (2, \<lparr>val = 6, expirationTimestamp = Fin 12\<rparr>)]\<rparr>)) 2 =
     Some \<lparr>val = 6, expirationTimestamp = Fin 12\<rparr> \<and>
   fst ` set (cache (set_c 7 1 8 \<lparr>capacity = Fin 2, ttlMs = Fin 10,
      cache = [(1::nat, \<lparr>val = (5::nat), expirationTimestamp = Fin 10\<rparr>),
               (2, \<lparr>val = 6, expirationTimestamp = Fin 12\<rparr>)]\<rparr>)) = {1, 2}"
proof -
  let ?init = "\<lparr>capacity = Fin 2, ttlMs = Fin 10, cache = ([] :: (nat, nat ValueHolder) js_map)\<rparr>"
  let ?two = "\<lparr>capacity = Fin 2, ttlMs = Fin 10,
      cache = [(1::nat, \<lparr>val = (5::nat), expirationTimestamp = Fin 10\<rparr>),
               (2, \<lparr>val = 6, expirationTimestamp = Fin 12\<rparr>)]\<rparr>"
  have a: "constructor (Fin (of_nat 2)) (Fin (of_int 10)) = Inr ?init"
    by (simp add: constructor_def isNaturalNumber_def)
  have b: "?two = run [(0, Set 1 5), (2, Set 2 6)] ?init"
    by (simp add: run_def set_c_def Map_delete_def Let_def round_double_Ints)
  have c: "Map_get (cache ?two) 1 \<noteq> None" by simp
  note frame = set_existing_no_eviction [OF a b c, of 8 7]
  from frame have "Map_get (cache (set_c 7 1 8 ?two)) 2 = Map_get (cache ?two) 2"
    by simp
  moreover from frame have "fst ` set (cache (set_c 7 1 8 ?two)) = fst ` set (cache ?two)"
    by blast
  ultimately show ?thesis using a b [symmetric] by auto
qed


section \<open>Eviction order\<close>

lemma fst_entry_of: "fst (entry_of ttl x) = key_of x"
  by (cases x) simp

lemma keys_set_c_subset:
  assumes "inv_c N ttl c"
  shows "fst ` set (cache (set_c now key v c)) \<subseteq> insert key (fst ` set (cache c))"
proof -
  have "set (inserted now key v c) \<subseteq> insert (key, \<lparr>val = v, expirationTimestamp =
      num_add (Fin (of_int now)) (ttlMs c)\<rparr>) (set (cache c))"
    by (auto simp: inserted_def)
  moreover have "set (cache (set_c now key v c)) \<subseteq> set (inserted now key v c)"
    by (auto simp: set_c_unfold)
  ultimately show ?thesis by fastforce
qed

text \<open>
  Calls of \<open>set\<close> with keys that are new and different from each other: the cache is a
  window of width \<open>N\<close> at the end of everything inserted.
\<close>

lemma run_fresh_sets:
  assumes "inv_c N ttl c"
      and "distinct (map key_of xs)"
      and "fst ` set (cache c) \<inter> key_of ` set xs = {}"
  shows "cache (run (map set_call xs) c) =
         drop (length (cache c) + length xs - N) (cache c @ map (entry_of ttl) xs)"
  using assms
proof (induction xs arbitrary: c)
  case Nil
  then show ?case by (simp add: run_def inv_c_def)
next
  case (Cons x xs)
  obtain now k v where x: "x = (now, k, v)" by (cases x) auto
  let ?c' = "set_c now k v c"
  let ?e = "entry_of ttl x"
  let ?A = "cache c @ [?e]"
  let ?d = "Suc (length (cache c)) - N"
  have inv': "inv_c N ttl ?c'"
    using Cons.prems(1) by (rule inv_c_set_c)
  have fresh: "k \<notin> fst ` set (cache c)"
    using Cons.prems(3) x by auto
  have le: "length (cache c) \<le> N"
    using Cons.prems(1) by (simp add: inv_c_def)
  have c': "cache ?c' = drop ?d ?A"
    using set_c_absent [OF Cons.prems(1) fresh, of now v] by (simp add: x)
  have d_le: "?d \<le> length ?A" by simp
  have len': "length (cache ?c') = Suc (length (cache c)) - ?d"
    by (simp add: c')
  have dist: "distinct (map key_of xs)"
    using Cons.prems(2) by simp
  have "fst ` set (cache ?c') \<subseteq> insert k (fst ` set (cache c))"
    by (rule keys_set_c_subset [OF Cons.prems(1)])
  moreover have "k \<notin> key_of ` set xs"
    using Cons.prems(2) x by auto
  moreover have "fst ` set (cache c) \<inter> key_of ` set xs = {}"
    using Cons.prems(3) by auto
  ultimately have disj: "fst ` set (cache ?c') \<inter> key_of ` set xs = {}"
    by blast
  have "cache (run (map set_call (x # xs)) c) = cache (run (map set_call xs) ?c')"
    by (simp add: run_def x)
  also have "\<dots> = drop (length (cache ?c') + length xs - N)
      (cache ?c' @ map (entry_of ttl) xs)"
    by (rule Cons.IH [OF inv' dist disj])
  also have "cache ?c' @ map (entry_of ttl) xs = drop ?d (?A @ map (entry_of ttl) xs)"
    by (simp only: c' drop_append_le [OF d_le])
  also have "drop (length (cache ?c') + length xs - N) (drop ?d (?A @ map (entry_of ttl) xs)) =
      drop (length (cache ?c') + length xs - N + ?d) (?A @ map (entry_of ttl) xs)"
    by (simp only: drop_drop)
  also have "length (cache ?c') + length xs - N + ?d = length (cache c) + length (x # xs) - N"
    using le by (simp add: len')
  finally show ?case by simp
qed

text \<open>
  C3: on a cache constructed with capacity \<open>N\<close>, after \<open>N + i\<close> calls of \<open>set\<close> with keys
  that differ from each other, at any clock readings, the cache holds the entries of
  the last \<open>N\<close> calls, oldest first, each as its call stored it: its key, its value and
  the expiration timestamp that call computed. The first \<open>i\<close> keys are gone: the call
  number \<open>N + i\<close> evicted key number \<open>i\<close>, the oldest at that moment, whether it had
  expired or not, and touched no other entry.
\<close>

theorem fifo_eviction_order:
  assumes "constructor (Fin (of_nat N)) ttl = Inr c0"
      and "distinct (map key_of xs)"
      and "length xs = N + i"
  shows "cache (run (map set_call xs) c0) = drop i (map (entry_of ttl) xs) \<and>
         map fst (cache (run (map set_call xs) c0)) = drop i (map key_of xs)"
proof -
  have inv: "inv_c N ttl c0"
    by (rule inv_c_constructor [OF assms(1)])
  have empty: "cache c0 = []"
    using assms(1) by (auto simp: constructor_def split: if_splits)
  then have "fst ` set (cache c0) \<inter> key_of ` set xs = {}" by simp
  from run_fresh_sets [OF inv assms(2) this]
  have entries: "cache (run (map set_call xs) c0) = drop i (map (entry_of ttl) xs)"
    by (simp add: empty assms(3))
  have "map fst (map (entry_of ttl) xs) = map key_of xs"
    by (simp add: fst_entry_of)
  then have "map fst (drop i (map (entry_of ttl) xs)) = drop i (map key_of xs)"
    by (simp only: drop_map [symmetric])
  with entries show ?thesis by simp
qed

theorem fifo_eviction_order_witness:
  "constructor (Fin (of_nat 2)) (Fin (of_int 10)) =
     Inr \<lparr>capacity = Fin 2, ttlMs = Fin 10, cache = ([] :: (nat, nat ValueHolder) js_map)\<rparr> \<and>
   distinct (map key_of [(0, 1::nat, 5::nat), (2, 2, 6), (30, 3, 7), (31, 4, 8)]) \<and>
   length [(0::int, 1::nat, 5::nat), (2, 2, 6), (30, 3, 7), (31, 4, 8)] = 2 + 2 \<and>
   cache (run (map set_call [(0, 1, 5), (2, 2, 6), (30, 3, 7), (31, 4, 8)])
     \<lparr>capacity = Fin 2, ttlMs = Fin 10, cache = ([] :: (nat, nat ValueHolder) js_map)\<rparr>) =
     [(3, \<lparr>val = 7, expirationTimestamp = Fin 40\<rparr>),
      (4, \<lparr>val = 8, expirationTimestamp = Fin 41\<rparr>)]"
proof -
  let ?init = "\<lparr>capacity = Fin 2, ttlMs = Fin 10, cache = ([] :: (nat, nat ValueHolder) js_map)\<rparr>"
  let ?xs = "[(0::int, 1::nat, 5::nat), (2, 2, 6), (30, 3, 7), (31, 4, 8)]"
  have a: "constructor (Fin (of_nat 2)) (Fin (of_int 10)) = Inr ?init"
    by (simp add: constructor_def isNaturalNumber_def)
  have b: "distinct (map key_of ?xs)" by simp
  have c: "length ?xs = 2 + 2" by simp
  from fifo_eviction_order [OF a b c] a b show ?thesis
    by (simp add: round_double_Ints)
qed

end
